theory Spec2Isabelle
  imports Main "HOL-Library.Word" "HOL-Library.Multiset"
begin

unbundle bit_operations_syntax

section \<open>Items and the bounded min-heap (main.go, lines 25--98)\<close>

text \<open>
  An \<open>item\<close> is a path with its size. \<open>Size\<close> is an \<open>int64\<close>: a 64-bit word, compared
  as a signed number (\<open>sint\<close>).
\<close>

record item =
  Path :: string
  Size :: "64 word"

text \<open>
  \<open>minHeap\<close>: the slice \<open>data\<close> and the capacity \<open>k\<close> (a Go \<open>int\<close>). The mutex is not
  modelled: every method holds it from entry to exit, so method calls are atomic and a
  concurrent use of the heap is some sequence of calls.
\<close>

record minHeap =
  h_data :: "item list"
  h_k :: int

text \<open>The heap built by \<open>&minHeap{k: cfg.topK}\<close>: \<open>data\<close> is the nil slice.\<close>

definition newHeap :: "int \<Rightarrow> minHeap" where
  "newHeap kk = \<lparr>h_data = [], h_k = kk\<rparr>"

text \<open>
  \<open>up\<close>, main.go lines 59--68. Reading \<open>h.data[p]\<close> and \<open>h.data[i]\<close> panics when the
  index is out of range; as \<open>p < i\<close>, that is exactly when \<open>i\<close> is out of range. The panic
  is the result \<open>None\<close>.
\<close>

function up :: "item list \<Rightarrow> nat \<Rightarrow> item list option" where
  "up xs i =
     (if 0 < i then
        (let p = (i - 1) div 2 in
           if length xs \<le> i then None
           else if sint (Size (xs ! p)) \<le> sint (Size (xs ! i)) then Some xs
           else up (xs[p := xs ! i, i := xs ! p]) p)
      else Some xs)"
  by pat_completeness auto
termination
  by (relation "measure (\<lambda>(xs, i). i)") auto

declare up.simps [simp del]

text \<open>
  \<open>down\<close>, main.go lines 70--88. Every read is guarded by \<open>l < n\<close> or \<open>r < n\<close>, and
  \<open>small\<close> is \<open>i\<close>, \<open>l\<close> or \<open>r\<close>; when \<open>i\<close> is out of range both guards fail and the
  loop stops without reading.
\<close>

function down :: "item list \<Rightarrow> nat \<Rightarrow> item list" where
  "down xs i =
     (let n = length xs;
          l = 2 * i + 1;
          r = l + 1;
          small = i;
          small = (if l < n \<and> sint (Size (xs ! l)) < sint (Size (xs ! small)) then l else small);
          small = (if r < n \<and> sint (Size (xs ! r)) < sint (Size (xs ! small)) then r else small)
      in if small = i then xs
         else down (xs[i := xs ! small, small := xs ! i]) small)"
  by pat_completeness auto
termination
  by (relation "measure (\<lambda>(xs, i). length xs - i)") (auto simp: Let_def split: if_splits)

declare down.simps [simp del]

text \<open>
  \<open>push\<close>, main.go lines 41--57. \<open>h.data[0]\<close> panics on an empty slice (\<open>None\<close>).
\<close>

definition push :: "minHeap \<Rightarrow> item \<Rightarrow> minHeap option" where
  "push h it =
     (if h_k h \<le> 0 then Some h
      else if int (length (h_data h)) < h_k h then
        (let d = h_data h @ [it] in
           case up d (length d - 1) of
             None \<Rightarrow> None
           | Some d' \<Rightarrow> Some (h\<lparr>h_data := d'\<rparr>))
      else
        (case h_data h of
           [] \<Rightarrow> None
         | x # _ \<Rightarrow>
             if sint (Size x) < sint (Size it)
             then Some (h\<lparr>h_data := down ((h_data h)[0 := it]) 0\<rparr>)
             else Some h))"

text \<open>A sequence of pushes, in the order in which they take the lock.\<close>

fun pushes :: "minHeap \<Rightarrow> item list \<Rightarrow> minHeap option" where
  "pushes h [] = Some h"
| "pushes h (it # its) = (case push h it of None \<Rightarrow> None | Some h' \<Rightarrow> pushes h' its)"

text \<open>
  \<open>sort.Slice(out, less)\<close> is Go's standard library: it leaves \<open>out\<close> a permutation of
  itself in which no element is \<open>less\<close> than an earlier one, and promises no order among
  elements that compare equal. The model is an insertion sort on \<open>less\<close>; only sortedness
  and the permutation are used below.
\<close>

fun sort_insert :: "('a \<Rightarrow> 'a \<Rightarrow> bool) \<Rightarrow> 'a \<Rightarrow> 'a list \<Rightarrow> 'a list" where
  "sort_insert lt x [] = [x]"
| "sort_insert lt x (y # ys) =
     (if lt x y then x # y # ys else y # sort_insert lt x ys)"

fun sort_Slice :: "('a \<Rightarrow> 'a \<Rightarrow> bool) \<Rightarrow> 'a list \<Rightarrow> 'a list" where
  "sort_Slice lt [] = []"
| "sort_Slice lt (x # xs) = sort_insert lt x (sort_Slice lt xs)"

text \<open>
  \<open>sortedDesc\<close>, main.go lines 91--98: the heap's slice is copied and the copy is sorted,
  so the heap itself is returned unchanged next to the snapshot.
\<close>

definition sortedDesc :: "minHeap \<Rightarrow> minHeap \<times> item list" where
  "sortedDesc h =
     (let out = h_data h
      in (h, sort_Slice (\<lambda>a b. sint (Size b) < sint (Size a)) out))"

section \<open>Configuration, counters and the directory tree (main.go, lines 152--170)\<close>

record walkCfg =
  topK :: int
  workers :: int
  followLinks :: bool
  maxDepth :: int
  skipHidden :: bool
  skipPatterns :: "string list"
  showProgress :: bool

text \<open>The four counters are \<open>int64\<close>s changed by \<open>atomic.AddInt64\<close>, which wraps.\<close>

record stats =
  filesSeen :: "64 word"
  dirsSeen :: "64 word"
  skipped :: "64 word"
  errors :: "64 word"

text \<open>
  Errors: \<open>Canceled\<close> is \<open>context.Canceled\<close>, the value of \<open>ctx.Err()\<close> once the
  context made by \<open>context.WithCancel\<close> is done; \<open>ErrPermission\<close> stands for every
  error \<open>e\<close> with \<open>errors.Is(e, fs.ErrPermission)\<close>, \<open>ErrOther\<close> for every other one.
\<close>

datatype error = Canceled | ErrPermission | ErrOther

text \<open>\<open>isIgnorable\<close>, main.go lines 435--441.\<close>

definition isIgnorable :: "error \<Rightarrow> bool" where
  "isIgnorable err = (if err = ErrPermission then True else False)"

text \<open>
  The type bits of \<open>fs.FileMode\<close>, with the values of Go's package \<open>io/fs\<close>:
  \<open>ModeDir = 1 << 31\<close>, \<open>ModeSymlink = 1 << 27\<close>, \<open>ModeDevice = 1 << 26\<close>,
  \<open>ModeNamedPipe = 1 << 25\<close>, \<open>ModeSocket = 1 << 24\<close>, \<open>ModeCharDevice = 1 << 21\<close>,
  \<open>ModeIrregular = 1 << 19\<close>; \<open>ModeType\<close> is their union, \<open>IsDir\<close> tests \<open>ModeDir\<close>
  and \<open>IsRegular\<close> tests that no type bit is set.
\<close>

definition ModeDir :: "32 word" where "ModeDir = push_bit 31 1"
definition ModeSymlink :: "32 word" where "ModeSymlink = push_bit 27 1"
definition ModeDevice :: "32 word" where "ModeDevice = push_bit 26 1"
definition ModeNamedPipe :: "32 word" where "ModeNamedPipe = push_bit 25 1"
definition ModeSocket :: "32 word" where "ModeSocket = push_bit 24 1"
definition ModeCharDevice :: "32 word" where "ModeCharDevice = push_bit 21 1"
definition ModeIrregular :: "32 word" where "ModeIrregular = push_bit 19 1"

definition ModeType :: "32 word" where
  "ModeType = ModeDir OR ModeSymlink OR ModeNamedPipe OR ModeSocket OR ModeDevice
                OR ModeCharDevice OR ModeIrregular"

definition IsDir :: "32 word \<Rightarrow> bool" where
  "IsDir m = (m AND ModeDir \<noteq> 0)"

definition IsRegular :: "32 word \<Rightarrow> bool" where
  "IsRegular m = (m AND ModeType = 0)"

text \<open>
  The directory tree as \<open>os.ReadDir\<close> shows it. An entry has its name, its mode (the
  entry's own \<open>lstat\<close> data, never the target of a link: \<open>de.IsDir()\<close> and
  \<open>info.Mode()\<close> read the same type bits), the result of \<open>de.Info()\<close> (an error, or
  the size that \<open>info.Size()\<close> returns), and what \<open>os.ReadDir\<close> returns for the entry's
  full path: the entries and the error. The tree is finite, as a directory tree is.
\<close>

datatype dirent =
  DirEntry (de_Name: string) (de_Mode: "32 word") (de_Info: "error + 64 word")
           (de_entries: "dirent list") (de_err: "error option")

text \<open>
  The standard library functions on paths are parameters: \<open>filepath_Match p s\<close> is the
  boolean that \<open>filepath.Match(p, s)\<close> returns (false with a malformed pattern), and
  \<open>filepath_Join\<close> is \<open>filepath.Join\<close>.
\<close>

record env =
  filepath_Match :: "string \<Rightarrow> string \<Rightarrow> bool"
  filepath_Join :: "string \<Rightarrow> string \<Rightarrow> string"

definition strings_HasPrefix :: "string \<Rightarrow> string \<Rightarrow> bool" where
  "strings_HasPrefix s p = (take (length p) s = p)"

text \<open>\<open>shouldSkipByGlob\<close>, main.go lines 444--452.\<close>

fun shouldSkipByGlob :: "env \<Rightarrow> string \<Rightarrow> string list \<Rightarrow> bool" where
  "shouldSkipByGlob E path [] = False"
| "shouldSkipByGlob E path (p # ps) =
     (if filepath_Match E p path then True else shouldSkipByGlob E path ps)"

text \<open>
  The state shared by all calls of \<open>walkDir\<close>: the two heaps, the counters, the number
  of tokens in the channel \<open>sem\<close>, and the log of the paths given to \<open>os.ReadDir\<close>, in
  the order of the calls (the log is how the model shows that a listing took place).
\<close>

record world =
  fileTop :: minHeap
  dirTop :: minHeap
  wstats :: stats
  sem_len :: nat
  readdir_log :: "string list"

definition add_filesSeen :: "world \<Rightarrow> world" where
  "add_filesSeen w = w\<lparr>wstats := (wstats w)\<lparr>filesSeen := filesSeen (wstats w) + 1\<rparr>\<rparr>"

definition add_dirsSeen :: "world \<Rightarrow> world" where
  "add_dirsSeen w = w\<lparr>wstats := (wstats w)\<lparr>dirsSeen := dirsSeen (wstats w) + 1\<rparr>\<rparr>"

definition add_skipped :: "world \<Rightarrow> world" where
  "add_skipped w = w\<lparr>wstats := (wstats w)\<lparr>skipped := skipped (wstats w) + 1\<rparr>\<rparr>"

definition add_errors :: "world \<Rightarrow> world" where
  "add_errors w = w\<lparr>wstats := (wstats w)\<lparr>errors := errors (wstats w) + 1\<rparr>\<rparr>"

definition os_ReadDir :: "string \<Rightarrow> world \<Rightarrow> world" where
  "os_ReadDir path w = w\<lparr>readdir_log := readdir_log w @ [path]\<rparr>"

section \<open>The walker (main.go, lines 325--419)\<close>

text \<open>
  What the parent does with the result of a child's \<open>walkDir\<close>: lines 386--393 in the
  goroutine and lines 398--403 in the synchronous branch, the same statements (the
  goroutine holds \<open>mu\<close> around \<open>total += size\<close>). \<open>None\<close> is a panic of \<open>push\<close>.
\<close>

definition childDone ::
  "string \<Rightarrow> 64 word \<times> error option \<Rightarrow> 64 word \<Rightarrow> world \<Rightarrow> (64 word \<times> world) option" where
  "childDone p res tot w =
     (case res of
        (sz, None) \<Rightarrow>
          (case push (dirTop w) \<lparr>Path = p, Size = sz\<rparr> of
             None \<Rightarrow> None
           | Some h \<Rightarrow> Some (tot + sz, w\<lparr>dirTop := h\<rparr>))
      | (sz, Some derr) \<Rightarrow>
          if \<not> isIgnorable derr then Some (tot, add_errors w) else Some (tot, w))"

text \<open>
  \<open>walkDir\<close> and its loop over the entries, \<open>walkEntries\<close>. The arguments \<open>entries\<close> and
  \<open>err\<close> of \<open>walkDir\<close> are what \<open>os.ReadDir(path)\<close> returns. \<open>ctx p\<close> tells whether
  \<open>ctx.Done()\<close> is closed when \<open>walkDir\<close> is entered for the path \<open>p\<close>: the token may
  be set at any moment of a run, and any answers are allowed. The depth is a Go \<open>int\<close>, far
  from its bounds on any directory tree.

  The goroutines are modelled in one schedule: a spawned goroutine runs to its end before
  its parent goes on, so \<open>wg.Wait()\<close> finds every child done. The \<open>select\<close> on \<open>sem\<close>
  takes the first branch when the channel has room (a channel of capacity 0 never has, and
  \<open>main\<close> panics on a negative capacity before any walk), the token is taken for the
  time of the child's walk and given back by the deferred \<open><-sem\<close>. Every sum of sizes
  is an \<open>int64\<close> sum, which wraps.
\<close>

fun walkDir ::
  "env \<Rightarrow> (string \<Rightarrow> bool) \<Rightarrow> string \<Rightarrow> int \<Rightarrow> walkCfg \<Rightarrow> dirent list \<Rightarrow> error option \<Rightarrow>
     world \<Rightarrow> ((64 word \<times> error option) \<times> world) option"
and walkEntries ::
  "env \<Rightarrow> (string \<Rightarrow> bool) \<Rightarrow> string \<Rightarrow> int \<Rightarrow> walkCfg \<Rightarrow> dirent list \<Rightarrow> 64 word \<Rightarrow>
     world \<Rightarrow> (64 word \<times> world) option" where
  "walkDir E ctx path depth cfg entries err w =
     (if ctx path then Some ((0, Some Canceled), w)
      else if maxDepth cfg > 0 \<and> depth > maxDepth cfg then Some ((0, None), add_skipped w)
      else
        (case err of
           Some e \<Rightarrow> Some ((0, Some e), add_errors (os_ReadDir path w))
         | None \<Rightarrow>
             (case walkEntries E ctx path depth cfg entries 0 (add_dirsSeen (os_ReadDir path w)) of
                None \<Rightarrow> None
              | Some (tot, w') \<Rightarrow> Some ((tot, None), w'))))"
| "walkEntries E ctx path depth cfg [] tot w = Some (tot, w)"
| "walkEntries E ctx path depth cfg (DirEntry name mode info sub suberr # rest) tot w =
     (let full = filepath_Join E path name in
      if shouldSkipByGlob E full (skipPatterns cfg)
      then walkEntries E ctx path depth cfg rest tot (add_skipped w)
      else
        (case info of
           Inl lerr \<Rightarrow> walkEntries E ctx path depth cfg rest tot (add_errors w)
         | Inr fsize \<Rightarrow>
             if mode AND ModeSymlink \<noteq> 0 \<and> \<not> followLinks cfg
             then walkEntries E ctx path depth cfg rest tot (add_skipped w)
             else if skipHidden cfg \<and> strings_HasPrefix name ''.''
             then walkEntries E ctx path depth cfg rest tot (add_skipped w)
             else if IsDir mode then
               (if sem_len w < nat (workers cfg) then
                  (case walkDir E ctx full (depth + 1) cfg sub suberr (w\<lparr>sem_len := sem_len w + 1\<rparr>) of
                     None \<Rightarrow> None
                   | Some (res, w1) \<Rightarrow>
                       (case childDone full res tot w1 of
                          None \<Rightarrow> None
                        | Some (tot', w2) \<Rightarrow>
                            walkEntries E ctx path depth cfg rest tot'
                              (w2\<lparr>sem_len := sem_len w2 - 1\<rparr>)))
                else
                  (case walkDir E ctx full (depth + 1) cfg sub suberr w of
                     None \<Rightarrow> None
                   | Some (res, w1) \<Rightarrow>
                       (case childDone full res tot w1 of
                          None \<Rightarrow> None
                        | Some (tot', w2) \<Rightarrow>
                            walkEntries E ctx path depth cfg rest tot' w2)))
             else if IsRegular mode then
               (case push (fileTop (add_filesSeen w)) \<lparr>Path = full, Size = fsize\<rparr> of
                  None \<Rightarrow> None
                | Some h \<Rightarrow>
                    walkEntries E ctx path depth cfg rest (tot + fsize)
                      ((add_filesSeen w)\<lparr>fileTop := h\<rparr>))
             else walkEntries E ctx path depth cfg rest tot w))"

declare walkDir.simps [simp del]

section \<open>Invariants of the heap\<close>

text \<open>
  The slice is a binary min-heap on \<open>Size\<close>: the parent of index \<open>j\<close> is \<open>(j - 1) div 2\<close>.
\<close>

definition is_heap :: "item list \<Rightarrow> bool" where
  "is_heap xs =
     (\<forall>j<length xs. 0 < j \<longrightarrow> sint (Size (xs ! ((j - 1) div 2))) \<le> sint (Size (xs ! j)))"

text \<open>
  The loop invariant of \<open>up\<close>: the heap order holds everywhere but between \<open>i\<close> and its
  parent, and the children of \<open>i\<close> are not below the parent of \<open>i\<close>.
\<close>

definition heap_except_up :: "item list \<Rightarrow> nat \<Rightarrow> bool" where
  "heap_except_up xs i =
     ((\<forall>j<length xs. 0 < j \<longrightarrow> j \<noteq> i \<longrightarrow>
          sint (Size (xs ! ((j - 1) div 2))) \<le> sint (Size (xs ! j))) \<and>
      (\<forall>j<length xs. 0 < j \<longrightarrow> (j - 1) div 2 = i \<longrightarrow> 0 < i \<longrightarrow>
          sint (Size (xs ! ((i - 1) div 2))) \<le> sint (Size (xs ! j))))"

text \<open>
  The loop invariant of \<open>down\<close>: the heap order holds everywhere but between \<open>i\<close> and its
  children, and the children of \<open>i\<close> are not below the parent of \<open>i\<close>.
\<close>

definition heap_except_down :: "item list \<Rightarrow> nat \<Rightarrow> bool" where
  "heap_except_down xs i =
     ((\<forall>j<length xs. 0 < j \<longrightarrow> (j - 1) div 2 \<noteq> i \<longrightarrow>
          sint (Size (xs ! ((j - 1) div 2))) \<le> sint (Size (xs ! j))) \<and>
      (\<forall>j<length xs. 0 < j \<longrightarrow> (j - 1) div 2 = i \<longrightarrow> 0 < i \<longrightarrow>
          sint (Size (xs ! ((i - 1) div 2))) \<le> sint (Size (xs ! j))))"

text \<open>
  The invariant of the selector after the pushes \<open>its\<close>, with \<open>D\<close> the items discarded
  so far: held and discarded items together are the pushed ones, the heap holds
  \<open>min k (length its)\<close> of them, and no discarded item is larger than a held one.
\<close>

definition topk_inv :: "minHeap \<Rightarrow> item multiset \<Rightarrow> item list \<Rightarrow> bool" where
  "topk_inv h D its =
     (is_heap (h_data h) \<and> mset (h_data h) + D = mset its \<and>
      length (h_data h) = min (nat (h_k h)) (length its) \<and>
      (\<forall>a\<in>set (h_data h). \<forall>b\<in>#D. sint (Size b) \<le> sint (Size a)))"

section \<open>The aggregate as the specification words it\<close>

text \<open>The test of main.go line 333.\<close>

definition depth_limited :: "walkCfg \<Rightarrow> int \<Rightarrow> bool" where
  "depth_limited cfg depth = (maxDepth cfg > 0 \<and> depth > maxDepth cfg)"





text \<open>
  The entry \<open>d\<close> of the directory \<open>path\<close> gets to the test \<open>de.IsDir()\<close> of line 377 and
  passes it: no skip pattern matches, \<open>de.Info()\<close> succeeds, the entry is not a link that
  is skipped, not a hidden entry that is skipped, and it is a directory.
\<close>

definition reached_as_dir :: "env \<Rightarrow> walkCfg \<Rightarrow> string \<Rightarrow> dirent \<Rightarrow> bool" where
  "reached_as_dir E cfg path d =
     (\<not> shouldSkipByGlob E (filepath_Join E path (de_Name d)) (skipPatterns cfg) \<and>
      \<not> isl (de_Info d) \<and>
      \<not> (de_Mode d AND ModeSymlink \<noteq> 0 \<and> \<not> followLinks cfg) \<and>
      \<not> (skipHidden cfg \<and> strings_HasPrefix (de_Name d) ''.'') \<and>
      IsDir (de_Mode d))"

section \<open>Concrete inputs\<close>

definition env0 :: env where
  "env0 = \<lparr>filepath_Match = (\<lambda>p s. p = s), filepath_Join = (\<lambda>a b. a @ ''/'' @ b)\<rparr>"

definition ctx_background :: "string \<Rightarrow> bool" where
  "ctx_background p = False"

definition ctx_canceled :: "string \<Rightarrow> bool" where
  "ctx_canceled p = True"

definition cfg0 :: walkCfg where
  "cfg0 = \<lparr>topK = 3, workers = 1, followLinks = False, maxDepth = 0, skipHidden = False,
           skipPatterns = [], showProgress = False\<rparr>"

definition cfg_depth1 :: walkCfg where
  "cfg_depth1 = cfg0\<lparr>maxDepth := 1\<rparr>"

definition cfg_follow :: walkCfg where
  "cfg_follow = cfg0\<lparr>followLinks := True\<rparr>"

definition stats0 :: stats where
  "stats0 = \<lparr>filesSeen = 0, dirsSeen = 0, skipped = 0, errors = 0\<rparr>"

definition world0 :: "int \<Rightarrow> world" where
  "world0 kk =
     \<lparr>fileTop = newHeap kk, dirTop = newHeap kk, wstats = stats0, sem_len = 0, readdir_log = []\<rparr>"

text \<open>A regular file (\<open>os.ReadDir\<close> on its path fails), a directory and its entries.\<close>

definition mk_file :: "string \<Rightarrow> 64 word \<Rightarrow> dirent" where
  "mk_file n sz = DirEntry n 0 (Inr sz) [] (Some ErrOther)"

definition mk_dir :: "string \<Rightarrow> dirent list \<Rightarrow> dirent" where
  "mk_dir n es = DirEntry n ModeDir (Inr 0) es None"

text \<open>A directory that cannot be listed, with the error of the listing.\<close>

definition mk_unreadable :: "string \<Rightarrow> error \<Rightarrow> dirent" where
  "mk_unreadable n e = DirEntry n ModeDir (Inr 0) [] (Some e)"

text \<open>
  A symbolic link to a directory that holds one file of 1000 bytes: \<open>os.ReadDir\<close> on the
  link's path would list the target.
\<close>

definition mk_link :: "string \<Rightarrow> dirent" where
  "mk_link n = DirEntry n ModeSymlink (Inr 7) [mk_file ''t'' 1000] None"

text \<open>A character device.\<close>

definition mk_device :: "string \<Rightarrow> dirent" where
  "mk_device n = DirEntry n (ModeDevice OR ModeCharDevice) (Inr 0) [] (Some ErrOther)"

text \<open>
  The files of 10, 50, 5, 100 and 20 bytes of the specification's end-to-end scenario,
  two of them in a subdirectory, next to a directory that cannot be listed, a link and a
  device.
\<close>

definition tree0 :: "dirent list" where
  "tree0 =
     [mk_file ''a'' 10,
      mk_dir ''sub'' [mk_file ''x'' 50, mk_file ''y'' 5],
      mk_unreadable ''locked'' ErrPermission,
      mk_link ''l'',
      mk_file ''d'' 100,
      mk_device ''tty'',
      mk_file ''e'' 20]"

text \<open>The tree \<open>r/a/b/f\<close> of the specification's depth example, \<open>f\<close> of 100 bytes.\<close>

definition dir_b :: dirent where
  "dir_b = mk_dir ''b'' [mk_file ''f'' 100]"

definition dir_a :: dirent where
  "dir_a = mk_dir ''a'' [dir_b]"

text \<open>The five sizes of the scenario as items.\<close>

definition items0 :: "item list" where
  "items0 =
     [\<lparr>Path = ''a'', Size = 10\<rparr>, \<lparr>Path = ''b'', Size = 50\<rparr>, \<lparr>Path = ''c'', Size = 5\<rparr>,
      \<lparr>Path = ''d'', Size = 100\<rparr>, \<lparr>Path = ''e'', Size = 20\<rparr>]"


section \<open>The heap keeps the largest items\<close>

subsection \<open>Sifting up and down restores the heap order\<close>

lemma parent_less: "0 < j \<Longrightarrow> (j - 1) div 2 < (j::nat)"
  by arith

lemma child_iff: "0 < j \<and> (j - 1) div 2 = i \<longleftrightarrow> j = 2 * i + 1 \<or> j = 2 * i + 2" for i j :: nat
  by arith

lemma mset_swap_nth: "i < length xs \<Longrightarrow> j < length xs \<Longrightarrow> mset (xs[i := xs ! j, j := xs ! i]) = mset xs"
  by (simp add: mset_swap)

lemma up_step_inv:
  assumes inv: "heap_except_up xs i" and i: "0 < i" "i < length xs"
    and lt: "\<not> sint (Size (xs ! ((i - 1) div 2))) \<le> sint (Size (xs ! i))"
  shows "heap_except_up (xs[(i - 1) div 2 := xs ! i, i := xs ! ((i - 1) div 2)]) ((i - 1) div 2)"
proof -
  define p where "p = (i - 1) div 2"
  define ys where "ys = xs[p := xs ! i, i := xs ! p]"
  have p: "p < i" using i by (simp add: p_def parent_less)
  have len: "length ys = length xs" by (simp add: ys_def)
  have yp: "ys ! p = xs ! i" using p i by (simp add: ys_def)
  have yi: "ys ! i = xs ! p" using p i by (simp add: ys_def)
  have yo: "\<And>j. j \<noteq> p \<Longrightarrow> j \<noteq> i \<Longrightarrow> ys ! j = xs ! j" by (simp add: ys_def)
  have h1: "\<And>j. j < length xs \<Longrightarrow> 0 < j \<Longrightarrow> j \<noteq> i \<Longrightarrow> sint (Size (xs ! ((j - 1) div 2))) \<le> sint (Size (xs ! j))"
    using inv by (simp add: heap_except_up_def)
  have h2: "\<And>j. j < length xs \<Longrightarrow> 0 < j \<Longrightarrow> (j - 1) div 2 = i \<Longrightarrow> sint (Size (xs ! p)) \<le> sint (Size (xs ! j))"
    using inv i by (simp add: heap_except_up_def p_def)
  have a: "sint (Size (ys ! ((j - 1) div 2))) \<le> sint (Size (ys ! j))"
    if j: "j < length ys" "0 < j" "j \<noteq> p" for j
  proof -
    consider "j = i" | "j \<noteq> i" "(j - 1) div 2 = p" | "j \<noteq> i" "(j - 1) div 2 = i" 
      | "j \<noteq> i" "(j - 1) div 2 \<noteq> p" "(j - 1) div 2 \<noteq> i" by blast
    then show ?thesis
    proof cases
      case 1
      then show ?thesis using yp yi lt by (simp add: p_def)
    next
      case 2
      have "sint (Size (xs ! p)) \<le> sint (Size (xs ! j))" using h1[of j] j 2 len by simp
      then show ?thesis using 2 yp yo[of j] j lt by (simp add: p_def)
    next
      case 3
      have "sint (Size (xs ! p)) \<le> sint (Size (xs ! j))" using h2[of j] j 3 len by simp
      then show ?thesis using 3 yi yo[of j] j by simp
    next
      case 4
      then show ?thesis using h1[of j] j len yo[of j] yo[of "(j - 1) div 2"] by simp
    qed
  qed
  have b: "sint (Size (ys ! ((p - 1) div 2))) \<le> sint (Size (ys ! j))"
    if j: "j < length ys" "0 < j" "(j - 1) div 2 = p" "0 < p" for j
  proof -
    have pp: "(p - 1) div 2 < p" using j by (simp add: parent_less)
    have ypp: "ys ! ((p - 1) div 2) = xs ! ((p - 1) div 2)" using pp p yo by simp
    have le: "sint (Size (xs ! ((p - 1) div 2))) \<le> sint (Size (xs ! p))"
      using h1[of p] p i j by simp
    show ?thesis
    proof (cases "j = i")
      case True
      then show ?thesis using ypp yi le by simp
    next
      case False
      have "j \<noteq> p" using j parent_less[of j] by auto
      moreover have "sint (Size (xs ! p)) \<le> sint (Size (xs ! j))" using h1[of j] j False len by simp
      ultimately show ?thesis using ypp yo[of j] False le by simp
    qed
  qed
  show ?thesis
    unfolding heap_except_up_def p_def[symmetric] ys_def[symmetric] using a b by blast
qed

lemma up_heap:
  "heap_except_up xs i \<Longrightarrow> i < length xs \<Longrightarrow>
     \<exists>ys. up xs i = Some ys \<and> is_heap ys \<and> mset ys = mset xs"
proof (induction xs i rule: up.induct)
  case (1 xs i)
  show ?case
  proof (cases "0 < i")
    case False
    then have "is_heap xs" using "1.prems" by (auto simp: heap_except_up_def is_heap_def)
    then show ?thesis using False by (simp add: up.simps[of xs 0])
  next
    case True
    define p where "p = (i - 1) div 2"
    show ?thesis
    proof (cases "sint (Size (xs ! p)) \<le> sint (Size (xs ! i))")
      case le: True
      have "is_heap xs" unfolding is_heap_def
      proof (intro allI impI)
        fix j assume "j < length xs" "0 < j"
        then show "sint (Size (xs ! ((j - 1) div 2))) \<le> sint (Size (xs ! j))"
          using "1.prems"(1) le by (cases "j = i") (auto simp: heap_except_up_def p_def)
      qed
      then show ?thesis using True le "1.prems"(2) by (simp add: up.simps[of xs i] p_def)
    next
      case gt: False
      let ?ys = "xs[p := xs ! i, i := xs ! p]"
      have inv': "heap_except_up ?ys p"
        using up_step_inv[OF "1.prems"(1) True "1.prems"(2)] gt by (simp add: p_def)
      have pl: "p < length ?ys" using True "1.prems"(2) parent_less[of i] by (simp add: p_def)
      have "\<exists>zs. up ?ys p = Some zs \<and> is_heap zs \<and> mset zs = mset ?ys"
        using "1.IH"[of p] True gt "1.prems"(2) inv' pl by (simp add: p_def)
      moreover have "mset ?ys = mset xs"
        using mset_swap_nth[of p xs i] pl "1.prems"(2) by simp
      moreover have "up xs i = up ?ys p"
        using True gt "1.prems"(2) by (simp add: up.simps[of xs i] p_def Let_def)
      ultimately show ?thesis by simp
    qed
  qed
qed

lemma down_unfold:
  "down xs i =
     (let l = 2 * i + 1; r = 2 * i + 2;
          s1 = (if l < length xs \<and> sint (Size (xs ! l)) < sint (Size (xs ! i)) then l else i);
          s2 = (if r < length xs \<and> sint (Size (xs ! r)) < sint (Size (xs ! s1)) then r else s1)
      in if s2 = i then xs else down (xs[i := xs ! s2, s2 := xs ! i]) s2)"
  by (simp add: down.simps[of xs i] Let_def)

lemma down_step_inv:
  assumes inv: "heap_except_down xs i"
    and s: "s < length xs" "0 < s" "(s - 1) div 2 = i"
    and lt: "sint (Size (xs ! s)) < sint (Size (xs ! i))"
    and mn: "\<And>c. c < length xs \<Longrightarrow> 0 < c \<Longrightarrow> (c - 1) div 2 = i \<Longrightarrow> sint (Size (xs ! s)) \<le> sint (Size (xs ! c))"
  shows "heap_except_down (xs[i := xs ! s, s := xs ! i]) s"
proof -
  define ys where "ys = xs[i := xs ! s, s := xs ! i]"
  have i_s: "i < s" using s parent_less[of s] by simp
  have len: "length ys = length xs" by (simp add: ys_def)
  have yi: "ys ! i = xs ! s" using i_s s by (simp add: ys_def)
  have y_s: "ys ! s = xs ! i" using i_s s by (simp add: ys_def)
  have yo: "\<And>j. j \<noteq> s \<Longrightarrow> j \<noteq> i \<Longrightarrow> ys ! j = xs ! j" by (simp add: ys_def)
  have h1: "\<And>j. j < length xs \<Longrightarrow> 0 < j \<Longrightarrow> (j - 1) div 2 \<noteq> i \<Longrightarrow> sint (Size (xs ! ((j - 1) div 2))) \<le> sint (Size (xs ! j))"
    using inv by (simp add: heap_except_down_def)
  have h2: "\<And>j. j < length xs \<Longrightarrow> 0 < j \<Longrightarrow> (j - 1) div 2 = i \<Longrightarrow> 0 < i \<Longrightarrow> sint (Size (xs ! ((i - 1) div 2))) \<le> sint (Size (xs ! j))"
    using inv by (simp add: heap_except_down_def)
  have a: "sint (Size (ys ! ((j - 1) div 2))) \<le> sint (Size (ys ! j))"
    if j: "j < length ys" "0 < j" "(j - 1) div 2 \<noteq> s" for j
  proof -
    consider "j = s" | "j \<noteq> s" "(j - 1) div 2 = i" | "j = i" 
      | "j \<noteq> s" "j \<noteq> i" "(j - 1) div 2 \<noteq> i" by blast
    then show ?thesis
    proof cases
      case 1
      then show ?thesis using yi y_s lt s by simp
    next
      case 2
      have "j \<noteq> i" using 2 parent_less[of j] j by auto
      then show ?thesis using 2 yi yo[of j] mn[of j] j len by simp
    next
      case 3
      have pi: "(i - 1) div 2 < i" using 3 j parent_less[of i] by simp
      have "ys ! ((i - 1) div 2) = xs ! ((i - 1) div 2)" using pi i_s yo by simp
      moreover have "sint (Size (xs ! ((i - 1) div 2))) \<le> sint (Size (xs ! s))"
        using h2[of s] s 3 j by simp
      ultimately show ?thesis using 3 yi by simp
    next
      case 4
      then show ?thesis using h1[of j] j len yo[of j] yo[of "(j - 1) div 2"] by simp
    qed
  qed
  have b: "sint (Size (ys ! ((s - 1) div 2))) \<le> sint (Size (ys ! j))"
    if j: "j < length ys" "0 < j" "(j - 1) div 2 = s" for j
  proof -
    have js: "s < j" using j parent_less[of j] by simp
    then have "ys ! j = xs ! j" using yo[of j] i_s by simp
    moreover have "sint (Size (xs ! s)) \<le> sint (Size (xs ! j))"
      using h1[of j] j len i_s by simp
    ultimately show ?thesis using s yi by simp
  qed
  show ?thesis
    unfolding heap_except_down_def ys_def[symmetric] using a b by blast
qed

lemma down_heap:
  "heap_except_down xs i \<Longrightarrow> is_heap (down xs i) \<and> mset (down xs i) = mset xs"
proof (induction xs i rule: down.induct)
  case (1 xs i)
  define l where "l = 2 * i + 1"
  define r where "r = 2 * i + 2"
  define s1 where "s1 = (if l < length xs \<and> sint (Size (xs ! l)) < sint (Size (xs ! i)) then l else i)"
  define s2 where "s2 = (if r < length xs \<and> sint (Size (xs ! r)) < sint (Size (xs ! s1)) then r else s1)"
  have unf: "down xs i = (if s2 = i then xs else down (xs[i := xs ! s2, s2 := xs ! i]) s2)"
    by (subst down_unfold) (simp add: Let_def l_def r_def s1_def s2_def)
  have mn: "sint (Size (xs ! s2)) \<le> sint (Size (xs ! c))"
    if "c < length xs" "0 < c" "(c - 1) div 2 = i" for c
  proof -
    have "c = l \<or> c = r" using that child_iff[of c i] by (auto simp: l_def r_def)
    then show ?thesis using that by (auto simp: s1_def s2_def split: if_splits)
  qed
  have s2i: "sint (Size (xs ! s2)) \<le> sint (Size (xs ! i))"
    by (auto simp: s1_def s2_def)
  show ?case
  proof (cases "s2 = i")
    case True
    have "is_heap xs" unfolding is_heap_def
    proof (intro allI impI)
      fix j assume j: "j < length xs" "0 < j"
      show "sint (Size (xs ! ((j - 1) div 2))) \<le> sint (Size (xs ! j))"
      proof (cases "(j - 1) div 2 = i")
        case True
        then show ?thesis using mn[of j] j \<open>s2 = i\<close> by simp
      next
        case False
        then show ?thesis using "1.prems" j by (simp add: heap_except_down_def)
      qed
    qed
    then show ?thesis using True unf by simp
  next
    case False
    have s2c: "s2 = l \<or> s2 = r" using False by (auto simp: s1_def s2_def split: if_splits)
    have s2len: "s2 < length xs" using False by (auto simp: s1_def s2_def split: if_splits)
    have s2p: "0 < s2" "(s2 - 1) div 2 = i" using s2c by (auto simp: l_def r_def)
    have lt: "sint (Size (xs ! s2)) < sint (Size (xs ! i))"
      using False by (auto simp: s1_def s2_def split: if_splits)
    let ?ys = "xs[i := xs ! s2, s2 := xs ! i]"
    have inv': "heap_except_down ?ys s2"
      using down_step_inv[OF "1.prems" s2len s2p lt] mn by blast
    have il: "i < length xs" using s2p s2len parent_less[of s2] by simp
    have IH: "is_heap (down ?ys s2) \<and> mset (down ?ys s2) = mset ?ys"
      using "1.IH"[of "length xs" l r i s1 s2] False inv'
      by (simp add: l_def r_def s1_def s2_def)
    moreover have "mset ?ys = mset xs" using mset_swap_nth[of i xs s2] il s2len by simp
    ultimately show ?thesis using unf False by simp
  qed
qed

lemma heap_root_min:
  "is_heap xs \<Longrightarrow> j < length xs \<Longrightarrow> sint (Size (xs ! 0)) \<le> sint (Size (xs ! j))"
proof (induction j rule: less_induct)
  case (less j)
  show ?case
  proof (cases "j = 0")
    case True
    then show ?thesis by simp
  next
    case False
    then have pj: "(j - 1) div 2 < j" using parent_less[of j] by simp
    have "sint (Size (xs ! 0)) \<le> sint (Size (xs ! ((j - 1) div 2)))"
      using less.IH[OF pj less.prems(1)] pj less.prems(2) by simp
    moreover have "sint (Size (xs ! ((j - 1) div 2))) \<le> sint (Size (xs ! j))"
      using less.prems False by (simp add: is_heap_def)
    ultimately show ?thesis by simp
  qed
qed

lemma heap_append_except_up:
  "is_heap xs \<Longrightarrow> heap_except_up (xs @ [x]) (length xs)"
  unfolding heap_except_up_def is_heap_def
proof (intro conjI allI impI)
  fix j
  assume h: "\<forall>j<length xs. 0 < j \<longrightarrow> sint (Size (xs ! ((j - 1) div 2))) \<le> sint (Size (xs ! j))"
    and j: "j < length (xs @ [x])" "0 < j" "j \<noteq> length xs"
  then have "j < length xs" by simp
  moreover have "(j - 1) div 2 < length xs" using \<open>j < length xs\<close> by arith
  ultimately show "sint (Size ((xs @ [x]) ! ((j - 1) div 2))) \<le> sint (Size ((xs @ [x]) ! j))"
    using h j by (simp add: nth_append)
next
  fix j
  assume j: "j < length (xs @ [x])" "0 < j" "(j - 1) div 2 = length xs"
  then have False using parent_less[of j] by simp
  then show "sint (Size ((xs @ [x]) ! ((length xs - 1) div 2))) \<le> sint (Size ((xs @ [x]) ! j))" ..
qed

lemma heap_replace_root_except_down:
  "is_heap xs \<Longrightarrow> heap_except_down (xs[0 := x]) 0"
  unfolding heap_except_down_def is_heap_def
proof (intro conjI allI impI)
  fix j
  assume h: "\<forall>j<length xs. 0 < j \<longrightarrow> sint (Size (xs ! ((j - 1) div 2))) \<le> sint (Size (xs ! j))"
    and j: "j < length (xs[0 := x])" "0 < j" "(j - 1) div 2 \<noteq> 0"
  then show "sint (Size (xs[0 := x] ! ((j - 1) div 2))) \<le> sint (Size (xs[0 := x] ! j))"
    by simp
next
  fix j :: nat
  assume "(0::nat) < 0"
  then show "sint (Size (xs[0 := x] ! ((0 - 1) div 2))) \<le> sint (Size (xs[0 := x] ! j))" by simp
qed

subsection \<open>The invariant of the selector\<close>

lemma topk_inv_new: "topk_inv (newHeap kk) {#} []"
  by (simp add: topk_inv_def newHeap_def is_heap_def)

lemma push_inv:
  assumes inv: "topk_inv h D its"
  shows "\<exists>h' D'. push h it = Some h' \<and> h_k h' = h_k h \<and> topk_inv h' D' (its @ [it])"
proof -
  have hp: "is_heap (h_data h)" and ms: "mset (h_data h) + D = mset its"
    and len: "length (h_data h) = min (nat (h_k h)) (length its)"
    and ord: "\<And>a b. a \<in> set (h_data h) \<Longrightarrow> b \<in># D \<Longrightarrow> sint (Size b) \<le> sint (Size a)"
    using inv by (auto simp: topk_inv_def)
  have sz: "length (h_data h) + size D = length its"
    using arg_cong[OF ms, of size] by simp
  consider (off) "h_k h \<le> 0" | (grow) "0 < h_k h" "int (length (h_data h)) < h_k h"
    | (full) "0 < h_k h" "\<not> int (length (h_data h)) < h_k h" by linarith
  then show ?thesis
  proof cases
    case off
    then have e: "h_data h = []" using len by simp
    have "topk_inv h (add_mset it D) (its @ [it])"
      using off e ms by (simp add: topk_inv_def is_heap_def)
    then show ?thesis using off by (auto simp: push_def)
  next
    case grow
    then have "length (h_data h) = length its" using len by linarith
    then have D: "D = {#}" using sz by simp
    obtain ys where ys: "up (h_data h @ [it]) (length (h_data h)) = Some ys" "is_heap ys"
      "mset ys = mset (h_data h @ [it])"
      using up_heap[OF heap_append_except_up[OF hp, of it]] by auto
    have ly: "length ys = Suc (length (h_data h))"
      using arg_cong[OF ys(3), of size] by simp
    have "topk_inv (h\<lparr>h_data := ys\<rparr>) {#} (its @ [it])"
      using ys ms D ly grow \<open>length (h_data h) = length its\<close>
      by (simp add: topk_inv_def)
    then show ?thesis using grow ys(1) by (auto simp: push_def)
  next
    case full
    then have lk: "length (h_data h) = nat (h_k h)" using len by linarith
    then obtain x xs where dx: "h_data h = x # xs" using full by (cases "h_data h") auto
    have xmin: "\<And>a. a \<in> set (h_data h) \<Longrightarrow> sint (Size x) \<le> sint (Size a)"
      using heap_root_min[OF hp] dx by (metis in_set_conv_nth nth_Cons_0)
    show ?thesis
    proof (cases "sint (Size x) < sint (Size it)")
      case False
      have "topk_inv h (add_mset it D) (its @ [it])"
        unfolding topk_inv_def
      proof (intro conjI ballI)
        show "is_heap (h_data h)" by (rule hp)
        show "mset (h_data h) + add_mset it D = mset (its @ [it])" using ms by simp
        show "length (h_data h) = min (nat (h_k h)) (length (its @ [it]))"
          using len lk by simp
      next
        fix a b assume a: "a \<in> set (h_data h)" and b: "b \<in># add_mset it D"
        show "sint (Size b) \<le> sint (Size a)"
        proof (cases "b = it")
          case True
          then show ?thesis using xmin[OF a] False by simp
        next
          case False
          then show ?thesis using ord[OF a] b by simp
        qed
      qed
      then show ?thesis using full False dx by (auto simp: push_def)
    next
      case True
      let ?zs = "down ((h_data h)[0 := it]) 0"
      have dz: "is_heap ?zs" "mset ?zs = mset ((h_data h)[0 := it])"
        using down_heap[OF heap_replace_root_except_down[OF hp, of it]] by auto
      have mz: "mset ?zs = add_mset it (mset xs)" using dz(2) dx by simp
      have lz: "length ?zs = length (h_data h)"
        using arg_cong[OF dz(2), of size] by simp
      have "topk_inv (h\<lparr>h_data := ?zs\<rparr>) (add_mset x D) (its @ [it])"
        unfolding topk_inv_def
      proof (intro conjI ballI)
        show "is_heap (h_data (h\<lparr>h_data := ?zs\<rparr>))" using dz(1) by simp
        show "mset (h_data (h\<lparr>h_data := ?zs\<rparr>)) + add_mset x D = mset (its @ [it])"
          using mz ms dx by simp
        show "length (h_data (h\<lparr>h_data := ?zs\<rparr>)) = min (nat (h_k (h\<lparr>h_data := ?zs\<rparr>))) (length (its @ [it]))"
          using lz len lk by simp
      next
        fix a b assume a: "a \<in> set (h_data (h\<lparr>h_data := ?zs\<rparr>))" and b: "b \<in># add_mset x D"
        have "set ?zs = insert it (set xs)"
          using arg_cong[OF mz, of set_mset] by simp
        then have a': "a = it \<or> a \<in> set xs" using a by simp
        have xa: "sint (Size x) \<le> sint (Size a)"
          using a' True xmin[of a] dx by auto
        show "sint (Size b) \<le> sint (Size a)"
        proof (cases "b = x")
          case True
          then show ?thesis using xa by simp
        next
          case False
          then have "b \<in># D" using b by simp
          then have "sint (Size b) \<le> sint (Size x)" using ord[of x b] dx by simp
          then show ?thesis using xa by simp
        qed
      qed
      then show ?thesis using full True dx by (auto simp: push_def)
    qed
  qed
qed

lemma pushes_inv:
  "topk_inv h D its \<Longrightarrow>
     \<exists>h' D'. pushes h new = Some h' \<and> h_k h' = h_k h \<and> topk_inv h' D' (its @ new)"
proof (induction new arbitrary: h D its)
  case Nil
  then show ?case by auto
next
  case (Cons it new)
  obtain h1 D1 where s: "push h it = Some h1" "h_k h1 = h_k h" "topk_inv h1 D1 (its @ [it])"
    using push_inv[OF Cons.prems] by blast
  show ?case using Cons.IH[OF s(3)] s(1,2) by auto
qed

lemma topk_characterisation:
  fixes ms ds :: "int list"
  assumes perm: "mset ms + mset ds = mset ss"
    and len: "length ms = min n (length ss)"
    and ord: "\<And>a b. a \<in> set ms \<Longrightarrow> b \<in> set ds \<Longrightarrow> b \<le> a"
  shows "mset (take n (rev (sort ss))) = mset ms"
proof -
  let ?L = "sort ds @ sort ms"
  have "sorted ?L" using ord by (auto simp: sorted_append)
  moreover have "mset ?L = mset ss" using perm by (simp add: add.commute)
  ultimately have L: "sort ss = ?L" by (metis properties_for_sort)
  have lsum: "length ms + length ds = length ss"
    using arg_cong[OF perm, of size] by simp
  show ?thesis
  proof (cases "n \<le> length ss")
    case True
    then have "length ms = n" using len by simp
    then have "take n (rev ?L) = rev (sort ms)" by simp
    then show ?thesis using L by simp
  next
    case False
    then have lm: "length ms = length ss" using len by simp
    then have "ds = []" using lsum by simp
    moreover have "take n (rev (sort ms)) = rev (sort ms)" using False lm by simp
    ultimately show ?thesis using L by simp
  qed
qed

lemma mset_sort_insert: "mset (sort_insert lt x ys) = add_mset x (mset ys)"
  by (induction ys) auto

lemma mset_sort_Slice: "mset (sort_Slice lt xs) = mset xs"
  by (induction xs) (auto simp: mset_sort_insert)

lemma set_sort_insert: "set (sort_insert lt x ys) = insert x (set ys)"
  by (induction ys) auto

lemma sorted_sort_insert:
  "sorted_wrt (\<lambda>a b. sint (Size b) \<le> sint (Size a)) ys \<Longrightarrow>
   sorted_wrt (\<lambda>a b. sint (Size b) \<le> sint (Size a))
     (sort_insert (\<lambda>a b. sint (Size b) < sint (Size a)) x ys)"
  by (induction ys) (auto simp: set_sort_insert)

lemma sorted_sort_Slice:
  "sorted_wrt (\<lambda>a b. sint (Size b) \<le> sint (Size a))
     (sort_Slice (\<lambda>a b. sint (Size b) < sint (Size a)) xs)"
  by (induction xs) (auto simp: sorted_sort_insert)

subsection \<open>Claims about the selector\<close>

text \<open>
  Claim C1. After any sequence \<open>its\<close> of pushes into a selector built with capacity \<open>K\<close>,
  no push panics, and the snapshot has exactly \<open>min K N\<close> elements (none when
  \<open>K \<le> 0\<close>: every push is discarded), all of them pushed items, whose sizes are, as a
  multiset, the \<open>K\<close> largest of the pushed sizes. As a push holds the lock from entry to
  exit, concurrent pushes are one such sequence, in the order of the lock.
\<close>

theorem C1_top_k_of_pushes:
  "\<exists>h. pushes (newHeap K) its = Some h \<and> h_k h = K \<and>
     (let out = snd (sortedDesc h) in
        length out = min (nat K) (length its) \<and>
        mset out \<subseteq># mset its \<and>
        mset (map (\<lambda>it. sint (Size it)) out) =
          mset (take (nat K) (rev (sort (map (\<lambda>it. sint (Size it)) its)))))"
proof -
  obtain h D where h: "pushes (newHeap K) its = Some h" "h_k h = h_k (newHeap K)" "topk_inv h D its"
    using pushes_inv[OF topk_inv_new, of K its] by auto
  have k: "h_k h = K" using h(2) by (simp add: newHeap_def)
  obtain ds where ds: "D = mset ds" by (metis ex_mset)
  have ms: "mset (h_data h) + mset ds = mset its"
    and len: "length (h_data h) = min (nat K) (length its)"
    and ord: "\<And>a b. a \<in> set (h_data h) \<Longrightarrow> b \<in> set ds \<Longrightarrow> sint (Size b) \<le> sint (Size a)"
    using h(3) k ds by (auto simp: topk_inv_def)
  let ?key = "\<lambda>it. sint (Size it)"
  have "mset (map ?key (h_data h)) + mset (map ?key ds) = mset (map ?key its)"
    using arg_cong[OF ms, of "image_mset ?key"] by simp
  moreover have "length (map ?key (h_data h)) = min (nat K) (length (map ?key its))"
    using len by simp
  moreover have "\<And>a b. a \<in> set (map ?key (h_data h)) \<Longrightarrow> b \<in> set (map ?key ds) \<Longrightarrow> b \<le> a"
    using ord by auto
  ultimately have top: "mset (take (nat K) (rev (sort (map ?key its)))) = mset (map ?key (h_data h))"
    by (rule topk_characterisation)
  let ?out = "snd (sortedDesc h)"
  have mo: "mset ?out = mset (h_data h)" by (simp add: sortedDesc_def mset_sort_Slice)
  have "length ?out = length (h_data h)" using arg_cong[OF mo, of size] by simp
  moreover have "mset ?out \<subseteq># mset its" using mo ms by (metis mset_subset_eq_add_left)
  moreover have "mset (map ?key ?out) = mset (map ?key (h_data h))"
    using arg_cong[OF mo, of "image_mset ?key"] by simp
  ultimately show ?thesis using h(1) k len top by (simp add: Let_def)
qed

text \<open>
  The specification's scenario: sizes 10, 50, 5, 100 and 20 pushed with \<open>K = 3\<close>.
\<close>

theorem C1_witness:
  "\<exists>h. pushes (newHeap 3) items0 = Some h \<and>
       map Size (snd (sortedDesc h)) = [100, 50, 20] \<and>
       mset (map (\<lambda>it. sint (Size it)) (snd (sortedDesc h))) =
         mset (take (nat 3) (rev (sort (map (\<lambda>it. sint (Size it)) items0))))"
proof -
  obtain h where h: "pushes (newHeap 3) items0 = Some h"
    and t: "mset (map (\<lambda>it. sint (Size it)) (snd (sortedDesc h))) =
         mset (take (nat 3) (rev (sort (map (\<lambda>it. sint (Size it)) items0))))"
    using C1_top_k_of_pushes[of 3 items0] by (auto simp: Let_def)
  have "map_option (\<lambda>h. map Size (snd (sortedDesc h))) (pushes (newHeap 3) items0) =
      Some [100, 50, 20]"
    by code_simp
  then have "map Size (snd (sortedDesc h)) = [100, 50, 20]" using h by simp
  then have "pushes (newHeap 3) items0 = Some h \<and>
       map Size (snd (sortedDesc h)) = [100, 50, 20] \<and>
       mset (map (\<lambda>it. sint (Size it)) (snd (sortedDesc h))) =
         mset (take (nat 3) (rev (sort (map (\<lambda>it. sint (Size it)) items0))))"
    using h t by simp
  then show ?thesis by (rule exI)
qed

text \<open>
  Claim C2. For every state of the selector, the snapshot leaves the heap as it is,
  is a permutation of the held items, and is sorted by descending size; a second snapshot
  with no push in between is the same sequence, hence the same multiset.
\<close>

theorem C2_snapshot_sorted_idempotent:
  "fst (sortedDesc h) = h \<and>
   mset (snd (sortedDesc h)) = mset (h_data h) \<and>
   sorted_wrt (\<lambda>a b. sint (Size b) \<le> sint (Size a)) (snd (sortedDesc h)) \<and>
   snd (sortedDesc (fst (sortedDesc h))) = snd (sortedDesc h) \<and>
   mset (snd (sortedDesc (fst (sortedDesc h)))) = mset (snd (sortedDesc h))"
  by (simp add: sortedDesc_def mset_sort_Slice sorted_sort_Slice)

section \<open>The walker\<close>

subsection \<open>No push panics\<close>

lemma up_Some: "i < length xs \<Longrightarrow> \<exists>ys. up xs i = Some ys"
proof (induction xs i rule: up.induct)
  case (1 xs i)
  show ?case
  proof (cases "0 < i \<and> \<not> sint (Size (xs ! ((i - 1) div 2))) \<le> sint (Size (xs ! i))")
    case True
    then have "(i - 1) div 2 < length (xs[(i - 1) div 2 := xs ! i, i := xs ! ((i - 1) div 2)])"
      using "1.prems" by simp
    then show ?thesis using "1.IH"[of "(i - 1) div 2"] True "1.prems"
      by (simp add: up.simps[of xs i] Let_def)
  next
    case False
    then show ?thesis using "1.prems" by (auto simp: up.simps[of xs i] Let_def)
  qed
qed

lemma push_Some: "\<exists>h'. push h it = Some h'"
proof -
  have "\<exists>ys. up (h_data h @ [it]) (length (h_data h)) = Some ys"
    by (rule up_Some) simp
  then show ?thesis
    by (cases "h_data h") (auto simp: push_def Let_def)
qed


subsection \<open>The walker computes the specification's aggregate\<close>


subsection \<open>Single steps of the walker\<close>


lemma walkDir_depth_limited:
  "\<not> ctx path \<Longrightarrow> depth_limited cfg depth \<Longrightarrow>
     walkDir E ctx path depth cfg entries err w = Some ((0, None), add_skipped w)"
  by (auto simp: walkDir.simps depth_limited_def)

lemma walkEntries_dir:
  assumes r: "reached_as_dir E cfg path d"
  shows "walkEntries E ctx path depth cfg (d # rest) tot w =
     (let full = filepath_Join E path (de_Name d);
          free = sem_len w < nat (workers cfg);
          w0 = (if free then w\<lparr>sem_len := sem_len w + 1\<rparr> else w)
      in case walkDir E ctx full (depth + 1) cfg (de_entries d) (de_err d) w0 of
           None \<Rightarrow> None
         | Some (res, w1) \<Rightarrow>
             (case childDone full res tot w1 of
                None \<Rightarrow> None
              | Some (tot', w2) \<Rightarrow>
                  walkEntries E ctx path depth cfg rest tot'
                    (if free then w2\<lparr>sem_len := sem_len w2 - 1\<rparr> else w2)))"
proof (cases d)
  case (DirEntry name mode info sub suberr)
  then obtain b where "info = Inr b" using r by (cases info) (auto simp: reached_as_dir_def)
  then show ?thesis using r DirEntry
    by (auto simp: reached_as_dir_def Let_def split: option.splits)
qed


lemma walkEntries_child_ok:
  assumes r: "reached_as_dir E cfg path d"
    and c: "walkDir E ctx (filepath_Join E path (de_Name d)) (depth + 1) cfg (de_entries d) (de_err d)
              (if sem_len w < nat (workers cfg) then w\<lparr>sem_len := sem_len w + 1\<rparr> else w) =
            Some ((sz, None), w1)"
  shows "\<exists>h. push (dirTop w1) \<lparr>Path = filepath_Join E path (de_Name d), Size = sz\<rparr> = Some h \<and>
     walkEntries E ctx path depth cfg (d # rest) tot w =
     walkEntries E ctx path depth cfg rest (tot + sz)
       (if sem_len w < nat (workers cfg)
        then w1\<lparr>dirTop := h, sem_len := sem_len w1 - 1\<rparr>
        else w1\<lparr>dirTop := h\<rparr>)"
proof -
  let ?p = "filepath_Join E path (de_Name d)"
  obtain h where h: "push (dirTop w1) \<lparr>Path = ?p, Size = sz\<rparr> = Some h"
    using push_Some by blast
  have cd: "childDone ?p (sz, None) tot w1 = Some (tot + sz, w1\<lparr>dirTop := h\<rparr>)"
    using h by (simp add: childDone_def)
  have "walkEntries E ctx path depth cfg (d # rest) tot w =
     walkEntries E ctx path depth cfg rest (tot + sz)
       (if sem_len w < nat (workers cfg)
        then w1\<lparr>dirTop := h, sem_len := sem_len w1 - 1\<rparr>
        else w1\<lparr>dirTop := h\<rparr>)"
    unfolding walkEntries_dir[OF r] Let_def c by (simp add: cd)
  then show ?thesis using h by blast
qed

lemma symlink_bits:
  assumes "m AND ModeType = ModeSymlink"
  shows "m AND ModeSymlink \<noteq> 0" "\<not> IsDir m" "\<not> IsRegular m"
proof -
  have t: "ModeType AND ModeSymlink = ModeSymlink" "ModeType AND ModeDir = ModeDir"
    "ModeSymlink AND ModeDir = 0" "ModeSymlink \<noteq> 0"
    by (simp_all add: ModeType_def ModeDir_def ModeSymlink_def ModeNamedPipe_def ModeSocket_def
          ModeDevice_def ModeCharDevice_def ModeIrregular_def)
  have "m AND ModeSymlink = (m AND ModeType) AND ModeSymlink"
    by (simp add: and.assoc t)
  then show "m AND ModeSymlink \<noteq> 0" using assms t by simp
  have "m AND ModeDir = (m AND ModeType) AND ModeDir"
    by (simp add: and.assoc t)
  then show "\<not> IsDir m" using assms t by (simp add: IsDir_def)
  show "\<not> IsRegular m" using assms t by (simp add: IsRegular_def)
qed



section \<open>Claims about the walker\<close>




text \<open>
  Claim C4 speaks of every call with a depth beyond the limit. The test of the token comes
  first (lines 326--330): with the token set, such a call returns the cancellation error
  and leaves the skipped counter as it was.
\<close>

theorem C4_counterexample:
  "0 < maxDepth cfg_depth1 \<and> maxDepth cfg_depth1 < 2 \<and>
   walkDir env0 ctx_canceled ''r/a/b'' 2 cfg_depth1 [mk_file ''f'' 100] None (world0 3) =
     Some ((0, Some Canceled), world0 3) \<and>
   skipped (wstats (world0 3)) = 0"
  by (simp add: walkDir.simps ctx_canceled_def cfg_depth1_def cfg0_def world0_def stats0_def)

text \<open>
  Claim C4, amended. A call of \<open>walkDir\<close> with the token not set, a maximum depth
  \<open>D > 0\<close> and a depth greater than \<open>D\<close> returns aggregate 0 and no error, and changes
  nothing but the skipped counter, which grows by one: the error counter, the count of
  directories seen, both heaps and the log of listings stay as they were.
\<close>

theorem C4_depth_limit_skips:
  "\<not> ctx path \<Longrightarrow> 0 < maxDepth cfg \<Longrightarrow> maxDepth cfg < depth \<Longrightarrow>
     walkDir E ctx path depth cfg entries err w =
       Some ((0, None), w\<lparr>wstats := (wstats w)\<lparr>skipped := skipped (wstats w) + 1\<rparr>\<rparr>)"
  by (simp add: walkDir.simps add_skipped_def)

text \<open>The directory \<open>r/a/b\<close> at depth 2 under the maximum depth 1.\<close>

theorem C4_witness:
  "\<not> ctx_background ''r/a/b'' \<and> 0 < maxDepth cfg_depth1 \<and> maxDepth cfg_depth1 < 2 \<and>
   walkDir env0 ctx_background ''r/a/b'' 2 cfg_depth1 [mk_file ''f'' 100] None (world0 3) =
     Some ((0, None), (world0 3)\<lparr>wstats := stats0\<lparr>skipped := 1\<rparr>\<rparr>)"
proof -
  have h: "\<not> ctx_background ''r/a/b''" "0 < maxDepth cfg_depth1" "maxDepth cfg_depth1 < 2"
    by (simp_all add: ctx_background_def cfg_depth1_def cfg0_def)
  show ?thesis
    using h C4_depth_limit_skips[where ctx = ctx_background and path = "''r/a/b''"
        and cfg = cfg_depth1 and depth = 2 and E = env0 and entries = "[mk_file ''f'' 100]"
        and err = None and w = "world0 3"]
    by (simp add: world0_def stats0_def)
qed





text \<open>
  Claim C7. A call of \<open>walkDir\<close> made with the token set returns the cancellation error
  and aggregate 0 and leaves the shared state as it was: no listing is logged, no counter
  moves, no heap changes, so nothing was listed and no child was walked.
\<close>

theorem C7_cancelled_returns_at_once:
  "ctx path \<Longrightarrow> walkDir E ctx path depth cfg entries err w = Some ((0, Some Canceled), w)"
  by (simp add: walkDir.simps)

text \<open>The tree of the scenario, with the token set from the start.\<close>

theorem C7_witness:
  "ctx_canceled ''r'' \<and>
   walkDir env0 ctx_canceled ''r'' 0 cfg0 tree0 None (world0 3) = Some ((0, Some Canceled), world0 3)"
proof -
  have h: "ctx_canceled ''r''" by (simp add: ctx_canceled_def)
  show ?thesis
    using h C7_cancelled_returns_at_once[where ctx = ctx_canceled and path = "''r''"
        and E = env0 and depth = 0 and cfg = cfg0 and entries = tree0 and err = None
        and w = "world0 3"]
    by simp
qed

text \<open>
  Claim C8 is about the goroutines that run at the same time, under every interleaving.
  The model above fixes one schedule, so it does not state the claim.
\<close>

text \<open>
  Claim C9. When the walk of a subdirectory entry returns \<open>(sz, nil)\<close>, the parent
  pushes the item \<open>(childPath, sz)\<close> into \<open>dirTop\<close>, adds \<open>sz\<close> to its running total
  and goes on with the remaining entries. A subdirectory beyond the depth limit is such
  an entry: its walk counts it as skipped and returns \<open>(0, nil)\<close>, and the parent pushes
  it with size 0.
\<close>

theorem C9_child_aggregate_pushed:
  "(reached_as_dir E cfg path d \<and>
    walkDir E ctx (filepath_Join E path (de_Name d)) (depth + 1) cfg (de_entries d) (de_err d)
      (if sem_len w < nat (workers cfg) then w\<lparr>sem_len := sem_len w + 1\<rparr> else w) =
      Some ((sz, None), w1) \<longrightarrow>
    (\<exists>h. push (dirTop w1) \<lparr>Path = filepath_Join E path (de_Name d), Size = sz\<rparr> = Some h \<and>
       walkEntries E ctx path depth cfg (d # rest) tot w =
       walkEntries E ctx path depth cfg rest (tot + sz)
         (if sem_len w < nat (workers cfg)
          then w1\<lparr>dirTop := h, sem_len := sem_len w1 - 1\<rparr>
          else w1\<lparr>dirTop := h\<rparr>))) \<and>
   (reached_as_dir E cfg path d \<and> \<not> ctx (filepath_Join E path (de_Name d)) \<and>
    depth_limited cfg (depth + 1) \<longrightarrow>
    (\<exists>h. push (dirTop w) \<lparr>Path = filepath_Join E path (de_Name d), Size = 0\<rparr> = Some h \<and>
       walkEntries E ctx path depth cfg (d # rest) tot w =
       walkEntries E ctx path depth cfg rest tot ((add_skipped w)\<lparr>dirTop := h\<rparr>)))"
proof (intro conjI impI)
  assume "reached_as_dir E cfg path d \<and>
    walkDir E ctx (filepath_Join E path (de_Name d)) (depth + 1) cfg (de_entries d) (de_err d)
      (if sem_len w < nat (workers cfg) then w\<lparr>sem_len := sem_len w + 1\<rparr> else w) =
      Some ((sz, None), w1)"
  then show "\<exists>h. push (dirTop w1) \<lparr>Path = filepath_Join E path (de_Name d), Size = sz\<rparr> = Some h \<and>
       walkEntries E ctx path depth cfg (d # rest) tot w =
       walkEntries E ctx path depth cfg rest (tot + sz)
         (if sem_len w < nat (workers cfg)
          then w1\<lparr>dirTop := h, sem_len := sem_len w1 - 1\<rparr>
          else w1\<lparr>dirTop := h\<rparr>)"
    using walkEntries_child_ok by blast
next
  let ?p = "filepath_Join E path (de_Name d)"
  let ?w0 = "if sem_len w < nat (workers cfg) then w\<lparr>sem_len := sem_len w + 1\<rparr> else w"
  assume a: "reached_as_dir E cfg path d \<and> \<not> ctx ?p \<and> depth_limited cfg (depth + 1)"
  then have c: "walkDir E ctx ?p (depth + 1) cfg (de_entries d) (de_err d) ?w0 =
      Some ((0, None), add_skipped ?w0)"
    using walkDir_depth_limited by blast
  obtain h where h: "push (dirTop (add_skipped ?w0)) \<lparr>Path = ?p, Size = 0\<rparr> = Some h"
    and s: "walkEntries E ctx path depth cfg (d # rest) tot w =
       walkEntries E ctx path depth cfg rest (tot + 0)
         (if sem_len w < nat (workers cfg)
          then (add_skipped ?w0)\<lparr>dirTop := h, sem_len := sem_len (add_skipped ?w0) - 1\<rparr>
          else (add_skipped ?w0)\<lparr>dirTop := h\<rparr>)"
    using walkEntries_child_ok[OF conjunct1[OF a] c, of rest tot] by blast
  have d: "dirTop (add_skipped ?w0) = dirTop w" by (simp add: add_skipped_def)
  have e: "(if sem_len w < nat (workers cfg)
          then (add_skipped ?w0)\<lparr>dirTop := h, sem_len := sem_len (add_skipped ?w0) - 1\<rparr>
          else (add_skipped ?w0)\<lparr>dirTop := h\<rparr>) = (add_skipped w)\<lparr>dirTop := h\<rparr>"
    by (simp add: add_skipped_def)
  show "\<exists>h. push (dirTop w) \<lparr>Path = ?p, Size = 0\<rparr> = Some h \<and>
       walkEntries E ctx path depth cfg (d # rest) tot w =
       walkEntries E ctx path depth cfg rest tot ((add_skipped w)\<lparr>dirTop := h\<rparr>)"
    using h s d e by auto
qed

text \<open>
  A subdirectory \<open>r/sub\<close> with files of 50 and 5 bytes is pushed with size 55. In the
  tree \<open>r/a/b/f\<close> under the maximum depth 1, \<open>r/a/b\<close>, at depth 2, holds a file of 100
  bytes, is counted as skipped, and is in the directory report with size 0.
\<close>

theorem C9_witness:
  "(reached_as_dir env0 cfg0 ''r'' (mk_dir ''sub'' [mk_file ''x'' 50, mk_file ''y'' 5]) \<and>
    (\<exists>w1. walkDir env0 ctx_background ''r/sub'' 1 cfg0 [mk_file ''x'' 50, mk_file ''y'' 5] None
            ((world0 3)\<lparr>sem_len := 1\<rparr>) = Some ((55, None), w1) \<and>
          walkEntries env0 ctx_background ''r'' 0 cfg0
            [mk_dir ''sub'' [mk_file ''x'' 50, mk_file ''y'' 5]] 0 (world0 3) =
          Some (55, w1\<lparr>dirTop := \<lparr>h_data = [\<lparr>Path = ''r/sub'', Size = 55\<rparr>], h_k = 3\<rparr>,
                       sem_len := 0\<rparr>))) \<and>
   (reached_as_dir env0 cfg_depth1 ''r/a'' dir_b \<and> \<not> ctx_background ''r/a/b'' \<and>
    depth_limited cfg_depth1 (1 + 1)) \<and>
   walkEntries env0 ctx_background ''r/a'' 1 cfg_depth1 [dir_b] 0 (world0 3) =
     Some (0, (add_skipped (world0 3))\<lparr>dirTop := \<lparr>h_data = [\<lparr>Path = ''r/a/b'', Size = 0\<rparr>], h_k = 3\<rparr>\<rparr>) \<and>
   map_option (\<lambda>(r, w). (r, snd (sortedDesc (dirTop w)), skipped (wstats w)))
     (walkDir env0 ctx_background ''r'' 0 cfg_depth1 [dir_a] None (world0 3)) =
     Some ((0, None), [\<lparr>Path = ''r/a'', Size = 0\<rparr>, \<lparr>Path = ''r/a/b'', Size = 0\<rparr>], 1)"
proof -
  let ?sub = "mk_dir ''sub'' [mk_file ''x'' 50, mk_file ''y'' 5]"
  have js: "filepath_Join env0 ''r'' (de_Name ?sub) = ''r/sub''"
    "de_entries ?sub = [mk_file ''x'' 50, mk_file ''y'' 5]" "de_err ?sub = None"
    by (simp_all add: env0_def mk_dir_def)
  have free: "sem_len (world0 3) < nat (workers cfg0)" "sem_len (world0 3) = 0"
    by (simp_all add: world0_def cfg0_def)
  have hs: "reached_as_dir env0 cfg0 ''r'' ?sub"
    by (simp add: reached_as_dir_def cfg0_def env0_def mk_dir_def IsDir_def ModeDir_def
          ModeSymlink_def strings_HasPrefix_def)
  have "map_option (\<lambda>(r, w). (r, dirTop w, sem_len w))
      (walkDir env0 ctx_background ''r/sub'' 1 cfg0 [mk_file ''x'' 50, mk_file ''y'' 5] None
            ((world0 3)\<lparr>sem_len := 1\<rparr>)) = Some ((55, None), newHeap 3, 1)"
    by code_simp
  then obtain w1 where w1: "walkDir env0 ctx_background ''r/sub'' 1 cfg0
        [mk_file ''x'' 50, mk_file ''y'' 5] None ((world0 3)\<lparr>sem_len := 1\<rparr>) = Some ((55, None), w1)"
    and d1: "dirTop w1 = newHeap 3" "sem_len w1 = 1"
    by auto
  obtain hq where hq: "push (dirTop w1) \<lparr>Path = ''r/sub'', Size = 55\<rparr> = Some hq"
    and sq: "walkEntries env0 ctx_background ''r'' 0 cfg0 [?sub] 0 (world0 3) =
       walkEntries env0 ctx_background ''r'' 0 cfg0 [] (0 + 55) (w1\<lparr>dirTop := hq, sem_len := sem_len w1 - 1\<rparr>)"
    using hs w1 free C9_child_aggregate_pushed[where E = env0 and cfg = cfg0 and path = "''r''"
        and d = ?sub and ctx = ctx_background and depth = 0 and w = "world0 3" and rest = "[]"
        and tot = 0 and sz = 55 and ?w1.0 = w1]
    by (auto simp: js)
  have "push (newHeap 3) \<lparr>Path = ''r/sub'', Size = 55\<rparr> =
      Some \<lparr>h_data = [\<lparr>Path = ''r/sub'', Size = 55\<rparr>], h_k = 3\<rparr>"
    by code_simp
  then have "hq = \<lparr>h_data = [\<lparr>Path = ''r/sub'', Size = 55\<rparr>], h_k = 3\<rparr>" using hq d1 by simp
  then have c: "walkEntries env0 ctx_background ''r'' 0 cfg0 [?sub] 0 (world0 3) =
          Some (55, w1\<lparr>dirTop := \<lparr>h_data = [\<lparr>Path = ''r/sub'', Size = 55\<rparr>], h_k = 3\<rparr>,
                       sem_len := 0\<rparr>)"
    using sq d1 by simp
  have j: "filepath_Join env0 ''r/a'' (de_Name dir_b) = ''r/a/b''"
    by (simp add: env0_def dir_b_def mk_dir_def)
  have h: "reached_as_dir env0 cfg_depth1 ''r/a'' dir_b \<and> \<not> ctx_background ''r/a/b'' \<and>
    depth_limited cfg_depth1 (1 + 1)"
    by (simp add: reached_as_dir_def ctx_background_def depth_limited_def cfg_depth1_def cfg0_def
          env0_def dir_b_def mk_dir_def IsDir_def ModeDir_def ModeSymlink_def strings_HasPrefix_def)
  obtain hp where hp: "push (dirTop (world0 3)) \<lparr>Path = ''r/a/b'', Size = 0\<rparr> = Some hp"
    and s: "walkEntries env0 ctx_background ''r/a'' 1 cfg_depth1 [dir_b] 0 (world0 3) =
       walkEntries env0 ctx_background ''r/a'' 1 cfg_depth1 [] 0 ((add_skipped (world0 3))\<lparr>dirTop := hp\<rparr>)"
    using h C9_child_aggregate_pushed[where E = env0 and cfg = cfg_depth1 and path = "''r/a''"
        and d = dir_b and ctx = ctx_background and depth = 1 and w = "world0 3" and rest = "[]"
        and tot = 0]
    by (auto simp: j)
  have "push (dirTop (world0 3)) \<lparr>Path = ''r/a/b'', Size = 0\<rparr> =
      Some \<lparr>h_data = [\<lparr>Path = ''r/a/b'', Size = 0\<rparr>], h_k = 3\<rparr>"
    by code_simp
  then have "hp = \<lparr>h_data = [\<lparr>Path = ''r/a/b'', Size = 0\<rparr>], h_k = 3\<rparr>" using hp by simp
  then have a: "walkEntries env0 ctx_background ''r/a'' 1 cfg_depth1 [dir_b] 0 (world0 3) =
     Some (0, (add_skipped (world0 3))\<lparr>dirTop := \<lparr>h_data = [\<lparr>Path = ''r/a/b'', Size = 0\<rparr>], h_k = 3\<rparr>\<rparr>)"
    using s by simp
  have b: "map_option (\<lambda>(r, w). (r, snd (sortedDesc (dirTop w)), skipped (wstats w)))
     (walkDir env0 ctx_background ''r'' 0 cfg_depth1 [dir_a] None (world0 3)) =
     Some ((0, None), [\<lparr>Path = ''r/a'', Size = 0\<rparr>, \<lparr>Path = ''r/a/b'', Size = 0\<rparr>], 1)"
    by code_simp
  show ?thesis using hs w1 c h a b by blast
qed

text \<open>
  Claim C10. For an entry that is a symbolic link (the type bits of its own mode are
  \<open>ModeSymlink\<close>), the loop goes on with the remaining entries and the same running
  total, and the shared state changes in one counter at most: no listing is logged and no
  heap changes, so the target is not walked and no size is added, with or without
  \<open>followLinks\<close>. With \<open>followLinks\<close> the one difference is that the link is no longer
  counted as skipped for being a link.
\<close>

theorem C10_symlink_never_followed:
  "de_Mode d AND ModeType = ModeSymlink \<Longrightarrow>
     walkEntries E ctx path depth cfg (d # rest) tot w =
     walkEntries E ctx path depth cfg rest tot
       (if shouldSkipByGlob E (filepath_Join E path (de_Name d)) (skipPatterns cfg) then add_skipped w
        else if isl (de_Info d) then add_errors w
        else if \<not> followLinks cfg then add_skipped w
        else if skipHidden cfg \<and> strings_HasPrefix (de_Name d) ''.'' then add_skipped w
        else w)"
proof (cases d)
  case (DirEntry name mode info sub suberr)
  assume "de_Mode d AND ModeType = ModeSymlink"
  then have m: "mode AND ModeType = ModeSymlink" using DirEntry by simp
  note b = symlink_bits[OF m]
  show ?thesis
  proof (cases info)
    case (Inl lerr)
    then show ?thesis using DirEntry by (simp add: Let_def)
  next
    case (Inr fsize)
    then show ?thesis using DirEntry b by (simp add: Let_def)
  qed
qed

text \<open>A link to a directory of 1000 bytes, with and without \<open>followLinks\<close>.\<close>

theorem C10_witness:
  "de_Mode (mk_link ''l'') AND ModeType = ModeSymlink \<and>
   walkEntries env0 ctx_background ''r'' 0 cfg_follow [mk_link ''l'', mk_file ''a'' 10] 0 (world0 3) =
     walkEntries env0 ctx_background ''r'' 0 cfg_follow [mk_file ''a'' 10] 0 (world0 3) \<and>
   walkEntries env0 ctx_background ''r'' 0 cfg0 [mk_link ''l'', mk_file ''a'' 10] 0 (world0 3) =
     walkEntries env0 ctx_background ''r'' 0 cfg0 [mk_file ''a'' 10] 0 (add_skipped (world0 3))"
proof -
  have h: "de_Mode (mk_link ''l'') AND ModeType = ModeSymlink"
    by (simp add: mk_link_def ModeType_def ModeDir_def ModeSymlink_def ModeNamedPipe_def
          ModeSocket_def ModeDevice_def ModeCharDevice_def ModeIrregular_def)
  have a: "walkEntries env0 ctx_background ''r'' 0 cfg_follow [mk_link ''l'', mk_file ''a'' 10] 0 (world0 3) =
     walkEntries env0 ctx_background ''r'' 0 cfg_follow [mk_file ''a'' 10] 0 (world0 3)"
    using C10_symlink_never_followed[OF h, where E = env0 and ctx = ctx_background
        and path = "''r''" and depth = 0 and cfg = cfg_follow and rest = "[mk_file ''a'' 10]"
        and tot = 0 and w = "world0 3"]
    by (simp add: cfg_follow_def cfg0_def mk_link_def)
  have b: "walkEntries env0 ctx_background ''r'' 0 cfg0 [mk_link ''l'', mk_file ''a'' 10] 0 (world0 3) =
     walkEntries env0 ctx_background ''r'' 0 cfg0 [mk_file ''a'' 10] 0 (add_skipped (world0 3))"
    using C10_symlink_never_followed[OF h, where E = env0 and ctx = ctx_background
        and path = "''r''" and depth = 0 and cfg = cfg0 and rest = "[mk_file ''a'' 10]"
        and tot = 0 and w = "world0 3"]
    by (simp add: cfg0_def mk_link_def)
  show ?thesis using h a b by blast
qed

end
